theory Spec2Isabelle
  imports Complex_Main
begin

section \<open>Pilot drowsiness detection: the per-frame logic of drows_streamlit.py\<close>

text \<open>
  The module reads camera frames in a loop, finds faces and eyes with two Haar cascades,
  reduces each frame to one boolean \<open>drowsy\<close> and feeds it, with the wall-clock time,
  to a timer kept in the Streamlit session state. The cascades, the camera and the clock
  belong to external libraries: the model takes what they return as inputs. Wall-clock
  readings (\<open>time.time()\<close>) and the slider value \<open>sensitivity\<close> are modelled as exact
  rationals.
\<close>

subsection \<open>Session state\<close>

text \<open>
  The keys of \<open>st.session_state\<close> that the module initialises (lines 111 to 120):
  \<open>closed_start = None\<close>, \<open>alarm_on = False\<close>, \<open>total_alerts = 0\<close>,
  \<open>play_alarm = False\<close>, \<open>detection_running = False\<close>.
\<close>

record session_state =
  closed_start :: "rat option"
  alarm_on :: bool
  total_alerts :: int
  play_alarm :: bool
  detection_running :: bool

definition initial_state :: session_state where
  "initial_state =
     \<lparr>closed_start = None, alarm_on = False, total_alerts = 0,
      play_alarm = False, detection_running = False\<rparr>"

text \<open>
  The sidebar settings that the loop reads, and the module-level flag
  \<open>FIREBASE_ENABLED and firebase_manager\<close>.
\<close>

record settings =
  sensitivity :: rat
  eye_detection_sensitivity :: int
  enable_sound :: bool
  firebase_enabled :: bool

subsection \<open>Drowsiness logic (lines 239 to 276)\<close>

text \<open>
  One evaluation of the \<open>if drowsy: ... else: ...\<close> block. The clock is read once per
  frame (in the \<open>if\<close> or in the \<open>elif\<close>, never both), so a frame carries one reading
  \<open>now\<close>. Besides the new state the function returns whether the status became
  the alert label (the \<open>elif\<close> branch ran) and whether the inner
  \<open>if not alarm_on\<close> block ran (the alert fired on this frame).
\<close>

definition drowsiness_logic ::
  "rat \<Rightarrow> bool \<Rightarrow> rat \<Rightarrow> session_state \<Rightarrow> session_state \<times> bool \<times> bool" where
  "drowsiness_logic thr drowsy now s =
     (if drowsy then
        (case closed_start s of
           None \<Rightarrow> (s\<lparr>closed_start := Some now\<rparr>, False, False)
         | Some c \<Rightarrow>
             if now - c > thr then
               (if \<not> alarm_on s then
                  (s\<lparr>alarm_on := True, total_alerts := total_alerts s + 1,
                     play_alarm := True\<rparr>, True, True)
                else (s, True, False))
             else (s, False, False))
      else
        (s\<lparr>closed_start := None, alarm_on := False, play_alarm := False\<rparr>, False, False))"

text \<open>The state after a sequence of frames, each a pair of \<open>drowsy\<close> and the clock reading.\<close>

fun drowsiness_run :: "rat \<Rightarrow> (bool \<times> rat) list \<Rightarrow> session_state \<Rightarrow> session_state" where
  "drowsiness_run thr [] s = s"
| "drowsiness_run thr ((drowsy, now) # fs) s =
     drowsiness_run thr fs (fst (drowsiness_logic thr drowsy now s))"

text \<open>
  The frames of a sequence on which the inner \<open>if not alarm_on\<close> block runs: one flag
  per frame, true where the alert fires.
\<close>

fun alert_edges :: "rat \<Rightarrow> (bool \<times> rat) list \<Rightarrow> session_state \<Rightarrow> bool list" where
  "alert_edges thr [] s = []"
| "alert_edges thr ((drowsy, now) # fs) s =
     snd (snd (drowsiness_logic thr drowsy now s))
       # alert_edges thr fs (fst (drowsiness_logic thr drowsy now s))"

text \<open>
  The states of the timer as the specification names them: AWAKE has no start time and
  no alarm; ALERTING has both.
\<close>

definition awake :: "session_state \<Rightarrow> bool" where
  "awake s \<longleftrightarrow> closed_start s = None \<and> \<not> alarm_on s"

definition alerting :: "session_state \<Rightarrow> bool" where
  "alerting s \<longleftrightarrow> closed_start s \<noteq> None \<and> alarm_on s"

text \<open>
  The invariant of the data model at clock reading \<open>now\<close>: an alarm that is on comes
  with a start time that lies more than the threshold in the past.
\<close>

definition alert_invariant :: "rat \<Rightarrow> rat \<Rightarrow> session_state \<Rightarrow> bool" where
  "alert_invariant thr now s \<longleftrightarrow>
     (alarm_on s \<longrightarrow> (case closed_start s of None \<Rightarrow> False | Some c \<Rightarrow> now - c > thr))"

subsection \<open>Episodes, as the specification counts them\<close>

text \<open>
  An episode is a maximal contiguous run of drowsy frames. \<open>closed_runs\<close> lists the
  episodes of a frame sequence, each as the clock readings of its frames, and \<open>elapsed\<close>
  is the time from the first frame of an episode to its last. These two follow the words
  of the specification, not the code; the counter of the code is compared with them.
\<close>

fun elapsed :: "rat list \<Rightarrow> rat" where
  "elapsed [] = 0"
| "elapsed (t # ts) = last (t # ts) - t"

function closed_runs :: "(bool \<times> rat) list \<Rightarrow> rat list list" where
  "closed_runs [] = []"
| "closed_runs ((drowsy, t) # fs) =
     (if drowsy then (t # map snd (takeWhile fst fs)) # closed_runs (dropWhile fst fs)
      else closed_runs fs)"
  by pat_completeness auto
termination
  by (relation "measure length") (auto simp: less_Suc_eq_le length_dropWhile_le)

definition alerting_episodes :: "rat \<Rightarrow> (bool \<times> rat) list \<Rightarrow> nat" where
  "alerting_episodes thr fs = length (filter (\<lambda>r. thr < elapsed r) (closed_runs fs))"

subsection \<open>Eye detection with a fallback pass (lines 207 to 226)\<close>

text \<open>
  \<open>eye_cascade.detectMultiScale\<close> is OpenCV code. The model takes it as a function of
  its keyword arguments and the face region, which returns the eye rectangles or raises.
  A \<open>maxSize\<close> that is not passed is \<open>None\<close>.
\<close>

datatype matcher_fault = MatcherFault

record eye_params =
  scaleFactor :: rat
  minNeighbors :: int
  minSize :: "int \<times> int"
  maxSize :: "(int \<times> int) option"

type_synonym region = "int \<times> int \<times> int \<times> int"

type_synonym 'roi eye_cascade = "eye_params \<Rightarrow> 'roi \<Rightarrow> matcher_fault + region list"

definition strict_pass :: "int \<Rightarrow> eye_params" where
  "strict_pass sens =
     \<lparr>scaleFactor = 11 / 10, minNeighbors = sens, minSize = (15, 15),
      maxSize = Some (80, 80)\<rparr>"

definition lenient_pass :: "int \<Rightarrow> eye_params" where
  "lenient_pass sens =
     \<lparr>scaleFactor = 105 / 100, minNeighbors = max 1 (sens - 1), minSize = (12, 12),
      maxSize = None\<rparr>"

text \<open>
  The eyes found in one face region, and the list of cascade calls made for it, in order.
\<close>

definition detect_eyes ::
  "'roi eye_cascade \<Rightarrow> int \<Rightarrow> 'roi \<Rightarrow> (matcher_fault + region list) \<times> eye_params list" where
  "detect_eyes cascade sens roi =
     (case cascade (strict_pass sens) roi of
        Inl e \<Rightarrow> (Inl e, [strict_pass sens])
      | Inr eyes \<Rightarrow>
          if length eyes = 0
          then (cascade (lenient_pass sens) roi, [strict_pass sens, lenient_pass sens])
          else (Inr eyes, [strict_pass sens]))"

subsection \<open>The loop over the faces of a frame (lines 199 to 233)\<close>

text \<open>
  The loop carries \<open>drowsy\<close> and \<open>eyes_detected\<close>, which start as \<open>True\<close> and \<open>0\<close>.
  The rectangles drawn on the colour frame do not reach the grey image that the cascades
  read, so they are left out.
\<close>

fun face_loop ::
  "'roi eye_cascade \<Rightarrow> int \<Rightarrow> 'roi list \<Rightarrow> bool \<times> nat \<Rightarrow> matcher_fault + bool \<times> nat" where
  "face_loop cascade sens [] (drowsy, eyes_detected) = Inr (drowsy, eyes_detected)"
| "face_loop cascade sens (roi # faces) (drowsy, eyes_detected) =
     (case fst (detect_eyes cascade sens roi) of
        Inl e \<Rightarrow> Inl e
      | Inr eyes \<Rightarrow>
          face_loop cascade sens faces
            (if length eyes > 0 then False else drowsy, length eyes))"

definition classify_frame ::
  "'roi eye_cascade \<Rightarrow> int \<Rightarrow> 'roi list \<Rightarrow> matcher_fault + bool \<times> nat" where
  "classify_frame cascade sens faces = face_loop cascade sens faces (True, 0)"

subsection \<open>One iteration of the detection loop (lines 196 to 298)\<close>

text \<open>
  What one frame shows on the page: whether the status is the alert label, whether the
  alert fired on this frame, whether the alert was pushed to Firebase, whether the audio
  element was written, and the two metrics.
\<close>

record frame_output =
  status_alert :: bool
  alert_fired :: bool
  firebase_push :: bool
  audio_emitted :: bool
  alerts_metric :: int
  eyes_metric :: nat

definition process_frame ::
  "'roi eye_cascade \<Rightarrow> settings \<Rightarrow> 'roi list \<Rightarrow> rat \<Rightarrow> session_state
     \<Rightarrow> matcher_fault + session_state \<times> frame_output" where
  "process_frame cascade cfg faces now s =
     (case classify_frame cascade (eye_detection_sensitivity cfg) faces of
        Inl e \<Rightarrow> Inl e
      | Inr (drowsy, eyes_detected) \<Rightarrow>
          (case drowsiness_logic (sensitivity cfg) drowsy now s of
             (s', alert, fired) \<Rightarrow>
               Inr (s',
                 \<lparr>status_alert = alert,
                  alert_fired = fired,
                  firebase_push = (fired \<and> firebase_enabled cfg),
                  audio_emitted = (play_alarm s' \<and> enable_sound cfg),
                  alerts_metric = total_alerts s',
                  eyes_metric = eyes_detected\<rparr>)))"

subsection \<open>The detection session (lines 170 to 316)\<close>

text \<open>
  The camera handle, with the number of \<open>release\<close> calls made on it. A handle is open
  from a successful \<open>VideoCapture\<close> until \<open>release\<close>.
\<close>

record camera =
  is_opened :: bool
  release_calls :: nat

definition video_capture :: "bool \<Rightarrow> camera" where
  "video_capture open_ok = \<lparr>is_opened = open_ok, release_calls = 0\<rparr>"

definition release :: "camera \<Rightarrow> camera" where
  "release cap = cap\<lparr>is_opened := False, release_calls := release_calls cap + 1\<rparr>"

text \<open>
  What the environment delivers in one iteration: \<open>cap.read()\<close> fails, or it returns a
  frame, for which the face cascade raises or returns the face regions, and on which the
  clock shows \<open>now\<close>. A script of such events stands for the camera; when it is used up,
  Streamlit has interrupted the script run (Stop button or rerun), which unwinds the loop
  by an exception.
\<close>

datatype 'roi tick = ReadFailure | Frame "matcher_fault + 'roi list" rat

datatype loop_exit = LoopEnded | Interrupted | ReadFailed | Faulted matcher_fault

definition max_frames :: nat where
  "max_frames = 500"

fun detection_loop ::
  "'roi eye_cascade \<Rightarrow> settings \<Rightarrow> 'roi tick list \<Rightarrow> nat \<Rightarrow> session_state
     \<Rightarrow> loop_exit \<times> nat \<times> session_state \<times> frame_output list" where
  "detection_loop cascade cfg [] frame_count s =
     (if detection_running s \<and> frame_count < max_frames
      then (Interrupted, frame_count, s, [])
      else (LoopEnded, frame_count, s, []))"
| "detection_loop cascade cfg (ReadFailure # ticks) frame_count s =
     (if detection_running s \<and> frame_count < max_frames
      then (ReadFailed, frame_count, s, [])
      else (LoopEnded, frame_count, s, []))"
| "detection_loop cascade cfg (Frame found now # ticks) frame_count s =
     (if detection_running s \<and> frame_count < max_frames then
        (case found of
           Inl e \<Rightarrow> (Faulted e, frame_count, s, [])
         | Inr faces \<Rightarrow>
             (case process_frame cascade cfg faces now s of
                Inl e \<Rightarrow> (Faulted e, frame_count, s, [])
              | Inr (s', out) \<Rightarrow>
                  (case detection_loop cascade cfg ticks (frame_count + 1) s' of
                     (ex, n, s'', outs) \<Rightarrow> (ex, n, s'', out # outs))))
      else (LoopEnded, frame_count, s, []))"

text \<open>
  The block under \<open>if st.session_state.detection_running\<close>: open the camera; if it did
  not open, report and clear the flag; otherwise run the loop and, in the \<open>finally\<close>
  clause, release the camera if it is open and clear the flag.
\<close>

record session_result =
  final_state :: session_state
  cap :: "camera option"
  loop_result :: "loop_exit option"
  frames_shown :: "frame_output list"
  rerun :: bool

definition detection_session ::
  "'roi eye_cascade \<Rightarrow> settings \<Rightarrow> bool \<Rightarrow> 'roi tick list \<Rightarrow> session_state
     \<Rightarrow> session_result" where
  "detection_session cascade cfg open_ok ticks s =
     (if \<not> detection_running s then
        \<lparr>final_state = s, cap = None, loop_result = None, frames_shown = [], rerun = False\<rparr>
      else
        (let c = video_capture open_ok in
         if \<not> is_opened c then
           \<lparr>final_state = s\<lparr>detection_running := False\<rparr>, cap = Some c,
            loop_result = None, frames_shown = [], rerun = False\<rparr>
         else
           (case detection_loop cascade cfg ticks 0 s of
              (ex, frame_count, s', outs) \<Rightarrow>
                \<lparr>final_state = s'\<lparr>detection_running := False\<rparr>,
                 cap = Some (if is_opened c then release c else c),
                 loop_result = Some ex, frames_shown = outs,
                 rerun = (frame_count \<ge> max_frames)\<rparr>)))"


subsection \<open>A scripted cascade and settings for the examples\<close>

text \<open>
  Face region 0 has no eyes in either pass, region 1 has one eye that only the pass
  without \<open>maxSize\<close> finds, region 2 has two eyes in the first pass, and on any other
  region the cascade raises. The settings are the defaults of the sidebar.
\<close>

definition demo_cascade :: "int eye_cascade" where
  "demo_cascade p roi =
     (if roi = 0 then Inr []
      else if roi = 1 then (if maxSize p = None then Inr [(3, 4, 20, 20)] else Inr [])
      else if roi = 2 then Inr [(1, 2, 30, 30), (40, 2, 30, 30)]
      else Inl MatcherFault)"

definition demo_settings :: settings where
  "demo_settings =
     \<lparr>sensitivity = 3 / 2, eye_detection_sensitivity = 2, enable_sound = True,
      firebase_enabled = True\<rparr>"

section \<open>Properties\<close>

subsection \<open>Shared facts about the timer\<close>

lemma drowsiness_run_append:
  "drowsiness_run thr (fs @ gs) s = drowsiness_run thr gs (drowsiness_run thr fs s)"
  by (induction fs arbitrary: s) auto

lemma open_frame_resets:
  "fst (drowsiness_logic thr False now s) =
     s\<lparr>closed_start := None, alarm_on := False, play_alarm := False\<rparr>"
  by (simp add: drowsiness_logic_def)

lemma open_frames_keep_awake:
  "closed_start s = None \<Longrightarrow> \<not> alarm_on s \<Longrightarrow>
   closed_start (drowsiness_run thr (map (\<lambda>t. (False, t)) ts) s) = None \<and>
   \<not> alarm_on (drowsiness_run thr (map (\<lambda>t. (False, t)) ts) s) \<and>
   total_alerts (drowsiness_run thr (map (\<lambda>t. (False, t)) ts) s) = total_alerts s"
  by (induction ts arbitrary: s) (simp_all add: open_frame_resets)

lemma closed_frame_from_awake:
  "closed_start s = None \<Longrightarrow>
   drowsiness_logic thr True now s = (s\<lparr>closed_start := Some now\<rparr>, False, False)"
  by (simp add: drowsiness_logic_def)

lemma closed_frame_timing:
  "closed_start s = Some c \<Longrightarrow>
   drowsiness_logic thr True now s =
     (if thr < now - c then
        (if alarm_on s then (s, True, False)
         else (s\<lparr>alarm_on := True, total_alerts := total_alerts s + 1, play_alarm := True\<rparr>,
               True, True))
      else (s, False, False))"
  by (simp add: drowsiness_logic_def)

lemma closed_run_state:
  "closed_start s = Some c \<Longrightarrow>
   drowsiness_run thr (map (Pair True) ts) s =
     (if \<not> alarm_on s \<and> (\<exists>t\<in>set ts. thr < t - c)
      then s\<lparr>alarm_on := True, total_alerts := total_alerts s + 1, play_alarm := True\<rparr>
      else s)"
proof (induction ts arbitrary: s)
  case Nil
  then show ?case by simp
next
  case (Cons t ts)
  show ?case
  proof (cases "thr < t - c \<and> \<not> alarm_on s")
    case True
    let ?s' = "s\<lparr>alarm_on := True, total_alerts := total_alerts s + 1, play_alarm := True\<rparr>"
    have "closed_start ?s' = Some c" using Cons.prems by simp
    from Cons.IH [OF this] True Cons.prems show ?thesis
      by (simp add: closed_frame_timing)
  next
    case False
    then have "fst (drowsiness_logic thr True t s) = s"
      using Cons.prems by (auto simp: closed_frame_timing)
    with Cons.IH [OF Cons.prems] False show ?thesis by auto
  qed
qed

lemma sorted_le_last:
  "sorted ts \<Longrightarrow> t \<in> set ts \<Longrightarrow> t \<le> last (ts::rat list)"
  by (induction ts) auto

lemma sorted_exceeds_iff_last:
  assumes "sorted (c # ts)" and "0 \<le> thr"
  shows "(\<exists>t\<in>set ts. thr < t - c) \<longleftrightarrow> thr < last (c # ts) - (c::rat)"
proof (cases "ts = []")
  case True
  with assms show ?thesis by simp
next
  case False
  then have l: "last (c # ts) = last ts" "last ts \<in> set ts" by simp_all
  have "\<forall>t\<in>set ts. t \<le> last ts"
    using assms(1) sorted_le_last by simp
  then show ?thesis using l by force
qed

lemma step_keeps_alert_invariant:
  "alert_invariant thr t s \<Longrightarrow> t \<le> t' \<Longrightarrow>
   alert_invariant thr t' (fst (drowsiness_logic thr d t' s))"
  by (auto simp: alert_invariant_def drowsiness_logic_def split: option.splits)

lemma run_keeps_alert_invariant:
  "alert_invariant thr t s \<Longrightarrow> sorted (t # map snd fs) \<Longrightarrow>
   alert_invariant thr (last (t # map snd fs)) (drowsiness_run thr fs s)"
proof (induction fs arbitrary: t s)
  case Nil
  then show ?case by simp
next
  case (Cons f fs)
  obtain d t' where f: "f = (d, t')" by (cases f)
  from Cons.prems f have le: "t \<le> t'" and so: "sorted (t' # map snd fs)" by simp_all
  from Cons.IH [OF step_keeps_alert_invariant [OF Cons.prems(1) le] so] f
  show ?case by simp
qed


lemma closed_run_from_awake:
  assumes "awake s"
  shows "drowsiness_run thr ((True, t0) # map (Pair True) ts) s =
     (if (\<exists>t\<in>set ts. thr < t - t0)
      then s\<lparr>closed_start := Some t0, alarm_on := True,
             total_alerts := total_alerts s + 1, play_alarm := True\<rparr>
      else s\<lparr>closed_start := Some t0\<rparr>)"
proof -
  let ?s1 = "s\<lparr>closed_start := Some t0\<rparr>"
  have c: "closed_start ?s1 = Some t0" by simp
  have "drowsiness_run thr ((True, t0) # map (Pair True) ts) s =
        drowsiness_run thr (map (Pair True) ts) ?s1"
    using assms by (simp add: awake_def closed_frame_from_awake)
  also have "\<dots> = (if \<not> alarm_on ?s1 \<and> (\<exists>t\<in>set ts. thr < t - t0)
      then ?s1\<lparr>alarm_on := True, total_alerts := total_alerts ?s1 + 1, play_alarm := True\<rparr>
      else ?s1)"
    by (rule closed_run_state [OF c])
  finally show ?thesis using assms by (simp add: awake_def)
qed


lemma closed_prefix_shape:
  "map (Pair True) (map snd (takeWhile fst fs)) = takeWhile fst (fs :: (bool \<times> rat) list)"
  by (induction fs) auto

lemma alerting_episodes_open:
  "alerting_episodes thr ((False, t) # fs) = alerting_episodes thr fs"
  by (simp add: alerting_episodes_def)

lemma alerting_episodes_closed:
  "alerting_episodes thr ((True, t) # fs) =
     (if thr < elapsed (t # map snd (takeWhile fst fs)) then 1 else 0)
     + alerting_episodes thr (dropWhile fst fs)"
  by (simp add: alerting_episodes_def)

lemma counter_matches_episodes:
  "sorted (map snd fs) \<Longrightarrow> 0 \<le> thr \<Longrightarrow> awake s \<or> fs = [] \<or> \<not> fst (hd fs) \<Longrightarrow>
   total_alerts (drowsiness_run thr fs s) = total_alerts s + int (alerting_episodes thr fs)"
proof (induction fs arbitrary: s rule: closed_runs.induct)
  case 1
  then show ?case by (simp add: alerting_episodes_def)
next
  case (2 drowsy t fs)
  show ?case
  proof (cases drowsy)
    case False
    have aw: "awake (fst (drowsiness_logic thr False t s))"
      by (simp add: open_frame_resets awake_def)
    have so: "sorted (map snd fs)" using "2.prems"(1) by simp
    from "2.IH"(2) [OF False so "2.prems"(2) disjI1 [OF aw]] False
    show ?thesis by (simp add: alerting_episodes_open open_frame_resets)
  next
    case True
    let ?ts = "map snd (takeWhile fst fs)"
    let ?gs = "dropWhile fst fs"
    let ?s2 = "drowsiness_run thr ((True, t) # map (Pair True) ?ts) s"
    have aw: "awake s" using "2.prems"(3) True by simp
    have split: "fs = map (Pair True) ?ts @ ?gs"
      unfolding closed_prefix_shape by (rule takeWhile_dropWhile_id [symmetric])
    have "sorted (t # map snd (map (Pair True) ?ts @ ?gs))"
      using "2.prems"(1) split by simp
    then have so1: "sorted (t # ?ts)" and so2: "sorted (map snd ?gs)"
      by (auto simp: sorted_append comp_def)
    have run: "drowsiness_run thr ((drowsy, t) # fs) s = drowsiness_run thr ?gs ?s2"
      using True drowsiness_run_append [of thr "(True, t) # map (Pair True) ?ts" ?gs s] split
      by simp
    have ex: "(\<exists>u\<in>set ?ts. thr < u - t) \<longleftrightarrow> thr < elapsed (t # ?ts)"
      using sorted_exceeds_iff_last [OF so1 "2.prems"(2)] by simp
    have t2: "total_alerts ?s2 = total_alerts s + (if thr < elapsed (t # ?ts) then 1 else 0)"
      unfolding closed_run_from_awake [OF aw] ex by simp
    have start: "awake ?s2 \<or> ?gs = [] \<or> \<not> fst (hd ?gs)"
      using hd_dropWhile [of fst fs] by blast
    from "2.IH"(1) [OF True so2 "2.prems"(2) start]
    have "total_alerts (drowsiness_run thr ?gs ?s2) =
          total_alerts ?s2 + int (alerting_episodes thr ?gs)" .
    with run t2 True show ?thesis
      by (simp add: alerting_episodes_closed)
  qed
qed

lemma step_counter_mono:
  "total_alerts s \<le> total_alerts (fst (drowsiness_logic thr d t s))"
  by (simp add: drowsiness_logic_def split: option.splits)

lemma run_counter_mono:
  "total_alerts s \<le> total_alerts (drowsiness_run thr fs s)"
proof (induction fs arbitrary: s)
  case Nil
  then show ?case by simp
next
  case (Cons f fs)
  obtain d t where f: "f = (d, t)" by (cases f)
  have "total_alerts s \<le> total_alerts (fst (drowsiness_logic thr d t s))"
    by (rule step_counter_mono)
  also have "\<dots> \<le> total_alerts (drowsiness_run thr fs (fst (drowsiness_logic thr d t s)))"
    by (rule Cons.IH)
  finally show ?case using f by simp
qed

lemma closed_run_counter:
  "total_alerts (drowsiness_run thr (map (Pair True) ts) s) \<le> total_alerts s + 1
   \<and> (alarm_on s \<longrightarrow> total_alerts (drowsiness_run thr (map (Pair True) ts) s) = total_alerts s)"
proof (cases ts)
  case Nil
  then show ?thesis by simp
next
  case (Cons t us)
  show ?thesis
  proof (cases "closed_start s")
    case None
    let ?s1 = "s\<lparr>closed_start := Some t\<rparr>"
    have "closed_start ?s1 = Some t" by simp
    from closed_run_state [OF this, of thr us] None Cons show ?thesis
      by (simp add: closed_frame_from_awake)
  next
    case (Some c)
    from closed_run_state [OF Some, of thr ts] show ?thesis by simp
  qed
qed

lemma step_counter_edge:
  "total_alerts (fst (drowsiness_logic thr d t s)) =
     total_alerts s + (if snd (snd (drowsiness_logic thr d t s)) then 1 else 0)"
  by (simp add: drowsiness_logic_def split: option.splits)

lemma counter_counts_edges:
  "total_alerts (drowsiness_run thr fs s) =
     total_alerts s + int (length (filter id (alert_edges thr fs s)))"
proof (induction fs arbitrary: s)
  case Nil
  then show ?case by simp
next
  case (Cons f fs)
  obtain d t where f: "f = (d, t)" by (cases f)
  show ?case
    unfolding f using Cons.IH [of "fst (drowsiness_logic thr d t s)"]
      step_counter_edge [of thr d t s]
    by simp
qed

lemma edges_match_episodes:
  assumes "sorted (map snd fs)" and "0 \<le> thr" and "awake s"
  shows "length (filter id (alert_edges thr fs s)) = alerting_episodes thr fs"
proof -
  have "total_alerts s + int (length (filter id (alert_edges thr fs s))) =
        total_alerts s + int (alerting_episodes thr fs)"
    using counter_matches_episodes [OF assms(1,2) disjI1 [OF assms(3)]]
      counter_counts_edges [of thr fs s]
    by simp
  then show ?thesis by simp
qed

subsection \<open>Shared facts about the face loop and the examples\<close>

lemma face_loop_result:
  "face_loop cascade sens faces (d0, n0) = Inr (drowsy, n) \<Longrightarrow>
   (drowsy \<longleftrightarrow> d0 \<and> (\<forall>roi\<in>set faces. fst (detect_eyes cascade sens roi) = Inr []))
   \<and> (\<forall>roi\<in>set faces. \<exists>eyes. fst (detect_eyes cascade sens roi) = Inr eyes)"
proof (induction faces arbitrary: d0 n0)
  case Nil
  then show ?case by simp
next
  case (Cons roi faces)
  then obtain eyes where e: "fst (detect_eyes cascade sens roi) = Inr eyes"
    by (auto split: sum.splits)
  with Cons.prems have
    "face_loop cascade sens faces (if length eyes > 0 then False else d0, length eyes) =
       Inr (drowsy, n)"
    by simp
  from Cons.IH [OF this] e show ?case by auto
qed

lemma face_loop_total:
  "\<forall>roi\<in>set faces. \<exists>eyes. fst (detect_eyes cascade sens roi) = Inr eyes \<Longrightarrow>
   \<exists>drowsy n. face_loop cascade sens faces (d0, n0) = Inr (drowsy, n)"
proof (induction faces arbitrary: d0 n0)
  case Nil
  then show ?case by simp
next
  case (Cons roi faces)
  then obtain eyes where e: "fst (detect_eyes cascade sens roi) = Inr eyes" by auto
  from Cons.prems have "\<forall>roi\<in>set faces. \<exists>eyes. fst (detect_eyes cascade sens roi) = Inr eyes"
    by simp
  from Cons.IH [OF this] e show ?case by simp
qed

lemma face_loop_last:
  "face_loop cascade sens (faces @ [roi]) (d0, n0) = Inr (drowsy, n) \<Longrightarrow>
   fst (detect_eyes cascade sens roi) = Inr eyes \<Longrightarrow> n = length eyes"
proof (induction faces arbitrary: d0 n0)
  case Nil
  then show ?case by simp
next
  case (Cons f faces)
  then show ?case by (auto split: sum.splits)
qed

lemma demo_detect:
  "detect_eyes demo_cascade 2 0 = (Inr [], [strict_pass 2, lenient_pass 2])"
  "detect_eyes demo_cascade 2 1 = (Inr [(3, 4, 20, 20)], [strict_pass 2, lenient_pass 2])"
  "detect_eyes demo_cascade 2 2 = (Inr [(1, 2, 30, 30), (40, 2, 30, 30)], [strict_pass 2])"
  "detect_eyes demo_cascade 2 3 = (Inl MatcherFault, [strict_pass 2])"
  by (simp_all add: detect_eyes_def demo_cascade_def strict_pass_def lenient_pass_def)

lemma demo_frames:
  "process_frame demo_cascade demo_settings [] 2 (initial_state\<lparr>closed_start := Some 0\<rparr>) =
     Inr (initial_state\<lparr>closed_start := Some 0, alarm_on := True, total_alerts := 1,
            play_alarm := True\<rparr>,
          \<lparr>status_alert = True, alert_fired = True, firebase_push = True,
           audio_emitted = True, alerts_metric = 1, eyes_metric = 0\<rparr>)"
  "process_frame demo_cascade demo_settings [] 3
     (initial_state\<lparr>closed_start := Some 0, alarm_on := True, total_alerts := 1,
        play_alarm := True\<rparr>) =
     Inr (initial_state\<lparr>closed_start := Some 0, alarm_on := True, total_alerts := 1,
            play_alarm := True\<rparr>,
          \<lparr>status_alert = True, alert_fired = False, firebase_push = False,
           audio_emitted = True, alerts_metric = 1, eyes_metric = 0\<rparr>)"
  by (simp_all add: process_frame_def classify_frame_def drowsiness_logic_def
      demo_settings_def initial_state_def)


subsection \<open>The detection loop runs the timer\<close>

text \<open>
  Whatever ends the loop, the session state it leaves is the state of the timer after the
  frames that were shown, each with the \<open>drowsy\<close> flag of its face loop and its clock
  reading. The properties of \<open>drowsiness_run\<close> below are properties of the loop.
\<close>

lemma process_frame_state:
  "process_frame cascade cfg faces now s = Inr (s', out) \<Longrightarrow>
   \<exists>drowsy. classify_frame cascade (eye_detection_sensitivity cfg) faces =
               Inr (drowsy, eyes_metric out)
     \<and> s' = fst (drowsiness_logic (sensitivity cfg) drowsy now s)"
  by (auto simp: process_frame_def split: sum.splits prod.splits)

lemma detection_loop_state:
  "detection_loop cascade cfg ticks frame_count s = (ex, n, s', outs) \<Longrightarrow>
   \<exists>fs. length fs = length outs \<and> s' = drowsiness_run (sensitivity cfg) fs s"
proof (induction ticks arbitrary: frame_count s outs)
  case Nil
  then have "s' = s" "outs = []" by (auto split: if_splits)
  then show ?case by simp
next
  case (Cons tk ticks)
  show ?case
  proof (cases tk)
    case ReadFailure
    with Cons.prems have "s' = s" "outs = []" by (auto split: if_splits)
    then show ?thesis by simp
  next
    case (Frame found now)
    show ?thesis
    proof (cases "detection_running s \<and> frame_count < max_frames")
      case False
      with Cons.prems Frame have "s' = s" "outs = []" by auto
      then show ?thesis by simp
    next
      case True
      show ?thesis
      proof (cases found)
        case (Inl e)
        with Cons.prems Frame True have "s' = s" "outs = []" by auto
        then show ?thesis by simp
      next
        case (Inr faces)
        show ?thesis
        proof (cases "process_frame cascade cfg faces now s")
          case (Inl e)
          with Cons.prems Frame True Inr have "s' = s" "outs = []" by auto
          then show ?thesis by simp
        next
          case r: (Inr p)
          obtain s1 out where p: "p = (s1, out)" by (cases p)
          from Cons.prems Frame True Inr r p obtain outs' where
            l: "detection_loop cascade cfg ticks (frame_count + 1) s1 = (ex, n, s', outs')"
            and o: "outs = out # outs'"
            by (auto split: prod.splits)
          from Cons.IH [OF l] obtain fs where
            fs: "length fs = length outs'" "s' = drowsiness_run (sensitivity cfg) fs s1"
            by blast
          from process_frame_state [OF r [unfolded p]] obtain drowsy where
            "s1 = fst (drowsiness_logic (sensitivity cfg) drowsy now s)" by blast
          with fs o have "length ((drowsy, now) # fs) = length outs
            \<and> s' = drowsiness_run (sensitivity cfg) ((drowsy, now) # fs) s"
            by simp
          then show ?thesis by blast
        qed
      qed
    qed
  qed
qed

subsection \<open>Idempotence of eyes-open frames\<close>

text \<open>
  Claim C9. In the AWAKE state (\<open>closed_start\<close> empty, \<open>alarm_on\<close> false) a frame with
  eyes open (\<open>drowsy\<close> false) leaves \<open>closed_start\<close>, \<open>alarm_on\<close> and \<open>total_alerts\<close>
  as they are, and so does any number of such frames in a row, whatever their clock
  readings.
\<close>

theorem awake_open_idempotent:
  assumes "closed_start s = None" and "\<not> alarm_on s"
  shows "closed_start (fst (drowsiness_logic thr False now s)) = closed_start s
       \<and> alarm_on (fst (drowsiness_logic thr False now s)) = alarm_on s
       \<and> total_alerts (fst (drowsiness_logic thr False now s)) = total_alerts s
       \<and> closed_start (drowsiness_run thr (map (\<lambda>t. (False, t)) ts) s) = closed_start s
       \<and> alarm_on (drowsiness_run thr (map (\<lambda>t. (False, t)) ts) s) = alarm_on s
       \<and> total_alerts (drowsiness_run thr (map (\<lambda>t. (False, t)) ts) s) = total_alerts s"
  using assms open_frames_keep_awake [of s thr ts] by (simp add: open_frame_resets)

theorem awake_open_idempotent_witness:
  "closed_start initial_state = None \<and> \<not> alarm_on initial_state
   \<and> closed_start (drowsiness_run (3/2) (map (\<lambda>t. (False, t)) [0, 1, 5]) initial_state) = None
   \<and> \<not> alarm_on (drowsiness_run (3/2) (map (\<lambda>t. (False, t)) [0, 1, 5]) initial_state)
   \<and> total_alerts (drowsiness_run (3/2) (map (\<lambda>t. (False, t)) [0, 1, 5]) initial_state) = 0"
proof -
  have a: "closed_start initial_state = None" and b: "\<not> alarm_on initial_state"
    by (simp_all add: initial_state_def)
  show ?thesis
    using awake_open_idempotent [OF a b, of "3/2" 0 "[0, 1, 5]"] a b
    by (simp add: initial_state_def)
qed

subsection \<open>The invariant of the alarm flag\<close>

text \<open>
  Claim C2. Start from the initial state (\<open>closed_start\<close> empty, \<open>alarm_on\<close> false,
  \<open>total_alerts\<close> 0) and run the per-frame update over any frames whose clock readings
  do not decrease, the last of them read at \<open>now\<close>. If \<open>alarm_on\<close> is true in the state
  reached, then \<open>closed_start\<close> is set and \<open>now - closed_start\<close> is greater than the
  threshold.
\<close>

theorem alarm_implies_threshold_exceeded:
  assumes "sorted (map snd (fs @ [(drowsy, now)]))"
  shows "alarm_on (drowsiness_run thr (fs @ [(drowsy, now)]) initial_state) \<longrightarrow>
         (\<exists>c. closed_start (drowsiness_run thr (fs @ [(drowsy, now)]) initial_state) = Some c
              \<and> thr < now - c)"
proof -
  let ?gs = "fs @ [(drowsy, now)]"
  obtain d0 t0 where hd: "hd ?gs = (d0, t0)" by (cases "hd ?gs")
  have i0: "alert_invariant thr t0 initial_state"
    by (simp add: alert_invariant_def initial_state_def)
  have "map snd ?gs = t0 # tl (map snd ?gs)"
    using hd by (cases ?gs) auto
  then have so: "sorted (t0 # map snd ?gs)"
    using assms by (metis sorted_wrt.simps(2) list.set_intros(1) order_refl sorted2)
  have "last (t0 # map snd ?gs) = now" by simp
  with run_keeps_alert_invariant [OF i0 so]
  have "alert_invariant thr now (drowsiness_run thr ?gs initial_state)" by simp
  then show ?thesis
    by (auto simp: alert_invariant_def split: option.splits)
qed

theorem alarm_implies_threshold_exceeded_witness:
  "sorted (map snd ([(True, 10), (True, 11)] @ [(True, 12 :: rat)]))
   \<and> alarm_on (drowsiness_run (3/2) ([(True, 10), (True, 11)] @ [(True, 12)]) initial_state)
   \<and> (\<exists>c. closed_start (drowsiness_run (3/2) ([(True, 10), (True, 11)] @ [(True, 12)])
              initial_state) = Some c \<and> 3/2 < 12 - c)"
proof -
  have so: "sorted (map snd ([(True, 10), (True, 11)] @ [(True, 12 :: rat)]))" by simp
  have al: "alarm_on (drowsiness_run (3/2) ([(True, 10), (True, 11)] @ [(True, 12)])
              initial_state)"
    by (simp add: drowsiness_logic_def initial_state_def)
  from alarm_implies_threshold_exceeded [OF so, of "3/2"] al so show ?thesis by blast
qed

subsection \<open>Recovery\<close>

text \<open>
  Claim C8. From ALERTING one frame with eyes open gives AWAKE (\<open>closed_start\<close> and
  \<open>alarm_on\<close> cleared, the counter kept). The next closed frame, read at \<open>t2\<close>, sets
  \<open>closed_start\<close> to \<open>t2\<close>, and a further closed frame at \<open>t3\<close> alerts exactly when
  \<open>t3 - t2\<close> exceeds the threshold: the new run is timed from its own first frame.
\<close>

theorem recovery_from_alerting:
  assumes "alerting s"
  shows "awake (drowsiness_run thr [(False, t1)] s)
       \<and> total_alerts (drowsiness_run thr [(False, t1)] s) = total_alerts s
       \<and> closed_start (drowsiness_run thr [(False, t1), (True, t2)] s) = Some t2
       \<and> \<not> alarm_on (drowsiness_run thr [(False, t1), (True, t2)] s)
       \<and> (alarm_on (drowsiness_run thr [(False, t1), (True, t2), (True, t3)] s)
            \<longleftrightarrow> thr < t3 - t2)
       \<and> total_alerts (drowsiness_run thr [(False, t1), (True, t2), (True, t3)] s) =
           total_alerts s + (if thr < t3 - t2 then 1 else 0)"
  by (simp add: awake_def drowsiness_logic_def)

theorem recovery_from_alerting_witness:
  "alerting (drowsiness_run (3/2) [(True, 0), (True, 2)] initial_state)
   \<and> awake (drowsiness_run (3/2) [(True, 0), (True, 2), (False, 3)] initial_state)
   \<and> closed_start (drowsiness_run (3/2) [(True, 0), (True, 2), (False, 3), (True, 4)]
        initial_state) = Some 4
   \<and> \<not> alarm_on (drowsiness_run (3/2)
        [(True, 0), (True, 2), (False, 3), (True, 4), (True, 5)] initial_state)
   \<and> total_alerts (drowsiness_run (3/2)
        [(True, 0), (True, 2), (False, 3), (True, 4), (True, 5)] initial_state) = 1"
proof -
  let ?s = "drowsiness_run (3/2) [(True, 0), (True, 2)] initial_state"
  have a: "alerting ?s"
    by (simp add: alerting_def drowsiness_logic_def initial_state_def)
  have t: "total_alerts ?s = 1"
    by (simp add: drowsiness_logic_def initial_state_def)
  have r: "\<And>gs. drowsiness_run (3/2) ([(True, 0), (True, 2)] @ gs) initial_state =
             drowsiness_run (3/2) gs ?s"
    by (rule drowsiness_run_append)
  from recovery_from_alerting [OF a, of "3/2" 3 4 5] a t r [of "[(False, 3)]"]
    r [of "[(False, 3), (True, 4)]"] r [of "[(False, 3), (True, 4), (True, 5)]"]
  show ?thesis by simp
qed

subsection \<open>Timing of the threshold comparison\<close>

text \<open>
  Claim C7. Take a run of closed frames from AWAKE, read at \<open>t0\<close> and then at \<open>ts\<close>,
  clock readings not decreasing, threshold not negative. The first frame only sets
  \<open>closed_start\<close>: no alarm and no count, whatever the threshold \<open>thr'\<close>. After the
  whole run the alarm is on exactly when the elapsed time of the run is strictly greater
  than the threshold, and the counter has gone up by one in that case and by nothing
  otherwise. The alert fires on a frame exactly when that frame is past the mark and the
  run before it was not: at the first frame after the mark, once. With threshold 1.5 a
  run of 1.4 does not alert and a run of 1.6 alerts once (the example that follows).
\<close>

theorem threshold_edge_timing:
  assumes "awake s" and "sorted (t0 # ts)" and "0 \<le> thr"
  shows "\<not> alarm_on (drowsiness_run thr' [(True, t0)] s)
       \<and> total_alerts (drowsiness_run thr' [(True, t0)] s) = total_alerts s
       \<and> (alarm_on (drowsiness_run thr ((True, t0) # map (Pair True) ts) s)
            \<longleftrightarrow> thr < elapsed (t0 # ts))
       \<and> total_alerts (drowsiness_run thr ((True, t0) # map (Pair True) ts) s) =
           total_alerts s + (if thr < elapsed (t0 # ts) then 1 else 0)
       \<and> (\<forall>pre t. ts = pre @ [t] \<longrightarrow>
            (snd (snd (drowsiness_logic thr True t
                (drowsiness_run thr ((True, t0) # map (Pair True) pre) s)))
             \<longleftrightarrow> thr < t - t0 \<and> \<not> thr < elapsed (t0 # pre)))"
proof -
  have first: "\<not> alarm_on (drowsiness_run thr' [(True, t0)] s)
       \<and> total_alerts (drowsiness_run thr' [(True, t0)] s) = total_alerts s"
    using assms(1) by (simp add: awake_def closed_frame_from_awake)
  have ex: "(\<exists>t\<in>set ts. thr < t - t0) \<longleftrightarrow> thr < elapsed (t0 # ts)"
    using sorted_exceeds_iff_last [OF assms(2,3)] by simp
  have whole: "(alarm_on (drowsiness_run thr ((True, t0) # map (Pair True) ts) s)
            \<longleftrightarrow> thr < elapsed (t0 # ts))
       \<and> total_alerts (drowsiness_run thr ((True, t0) # map (Pair True) ts) s) =
           total_alerts s + (if thr < elapsed (t0 # ts) then 1 else 0)"
    unfolding closed_run_from_awake [OF assms(1)] ex using assms(1)
    by (simp add: awake_def)
  have edge: "snd (snd (drowsiness_logic thr True t
                (drowsiness_run thr ((True, t0) # map (Pair True) pre) s)))
             \<longleftrightarrow> thr < t - t0 \<and> \<not> thr < elapsed (t0 # pre)"
    if ts: "ts = pre @ [t]" for pre t
  proof -
    have "sorted (t0 # pre)" using assms(2) ts by (simp add: sorted_append)
    from sorted_exceeds_iff_last [OF this assms(3)]
    have ex': "(\<exists>u\<in>set pre. thr < u - t0) \<longleftrightarrow> thr < elapsed (t0 # pre)" by simp
    show ?thesis
      unfolding closed_run_from_awake [OF assms(1)] ex' using assms(1)
      by (simp add: awake_def closed_frame_timing)
  qed
  from first whole edge show ?thesis by blast
qed

theorem threshold_edge_timing_witness:
  "awake initial_state \<and> sorted [10, 21/2, 11, 57/5 :: rat] \<and> (0::rat) \<le> 3/2
   \<and> elapsed [10, 21/2, 11, 57/5] = 7/5
   \<and> \<not> alarm_on (drowsiness_run (3/2)
          [(True, 10), (True, 21/2), (True, 11), (True, 57/5)] initial_state)
   \<and> total_alerts (drowsiness_run (3/2)
          [(True, 10), (True, 21/2), (True, 11), (True, 57/5)] initial_state) = 0
   \<and> elapsed [10, 21/2, 11, 57/5, 58/5] = 8/5
   \<and> total_alerts (drowsiness_run (3/2)
          [(True, 10), (True, 21/2), (True, 11), (True, 57/5), (True, 58/5)] initial_state) = 1
   \<and> snd (snd (drowsiness_logic (3/2) True (58/5) (drowsiness_run (3/2)
          [(True, 10), (True, 21/2), (True, 11), (True, 57/5)] initial_state)))"
proof -
  have a: "awake initial_state" by (simp add: awake_def initial_state_def)
  have s1: "sorted [10, 21/2, 11, 57/5 :: rat]" by simp
  have s2: "sorted [10, 21/2, 11, 57/5, 58/5 :: rat]" by simp
  have z: "(0::rat) \<le> 3/2" by simp
  have t0: "total_alerts initial_state = 0" by (simp add: initial_state_def)
  from threshold_edge_timing [OF a s1 z, of 0] threshold_edge_timing [OF a s2 z, of 0] a s1 z t0
  show ?thesis by simp
qed


subsection \<open>The alert counter counts the episodes that exceed the threshold\<close>

text \<open>
  Claim C1. For every sequence of frames (each a \<open>drowsy\<close> flag, the negation of eyes
  open, with its clock reading) whose readings do not decrease, a threshold that is not
  negative and an AWAKE start state, \<open>total_alerts\<close> after the sequence is its value
  before plus the number of maximal runs of closed frames whose elapsed time (last
  reading minus first) exceeds the threshold: one per such run, none for the others.
  The counter never decreases when more frames follow. Over a run of closed frames, from
  any state, it goes up by at most one, and not at all if the alarm is already on.
\<close>

theorem total_alerts_counts_episodes:
  "(sorted (map snd fs) \<and> 0 \<le> thr \<and> awake s \<longrightarrow>
      total_alerts (drowsiness_run thr fs s) = total_alerts s + int (alerting_episodes thr fs))
   \<and> total_alerts (drowsiness_run thr' fs' s') \<le> total_alerts (drowsiness_run thr' (fs' @ gs') s')
   \<and> total_alerts (drowsiness_run thr' (map (Pair True) ts) s') \<le> total_alerts s' + 1
   \<and> (alarm_on s' \<longrightarrow>
        total_alerts (drowsiness_run thr' (map (Pair True) ts) s') = total_alerts s')"
  using counter_matches_episodes [of fs thr s]
    run_counter_mono [of "drowsiness_run thr' fs' s'" thr' gs']
    closed_run_counter [of thr' ts s']
  by (simp add: drowsiness_run_append)

theorem total_alerts_counts_episodes_witness:
  "sorted (map snd [(True, 0), (True, 1), (True, 2), (False, 3), (True, 4), (True, 5),
                    (False, 6), (True, 7), (True, 9 :: rat)])
   \<and> (0::rat) \<le> 3/2 \<and> awake initial_state
   \<and> closed_runs [(True, 0), (True, 1), (True, 2), (False, 3), (True, 4), (True, 5),
                    (False, 6), (True, 7), (True, 9)] = [[0, 1, 2], [4, 5], [7, 9]]
   \<and> alerting_episodes (3/2) [(True, 0), (True, 1), (True, 2), (False, 3), (True, 4),
                    (True, 5), (False, 6), (True, 7), (True, 9)] = 2
   \<and> total_alerts (drowsiness_run (3/2) [(True, 0), (True, 1), (True, 2), (False, 3),
        (True, 4), (True, 5), (False, 6), (True, 7), (True, 9)] initial_state) = 2
   \<and> alarm_on (drowsiness_run (3/2) [(True, 0), (True, 2)] initial_state)
   \<and> total_alerts (drowsiness_run (3/2) [(True, 0), (True, 2)] initial_state) = 1
   \<and> total_alerts (drowsiness_run (3/2) ([(True, 0), (True, 2)] @ [(True, 3), (True, 4)])
        initial_state) = 1"
proof -
  let ?fs = "[(True, 0), (True, 1), (True, 2), (False, 3), (True, 4), (True, 5),
              (False, 6), (True, 7), (True, 9 :: rat)]"
  let ?s' = "drowsiness_run (3/2) [(True, 0), (True, 2)] initial_state"
  have so: "sorted (map snd ?fs)" by simp
  have z: "(0::rat) \<le> 3/2" by simp
  have a: "awake initial_state" by (simp add: awake_def initial_state_def)
  have r: "closed_runs ?fs = [[0, 1, 2], [4, 5], [7, 9]]" by simp
  have e: "alerting_episodes (3/2) ?fs = 2" by (simp add: alerting_episodes_def)
  have t0: "total_alerts initial_state = 0" by (simp add: initial_state_def)
  have al: "alarm_on ?s'" by (simp add: drowsiness_logic_def initial_state_def)
  have t1: "total_alerts ?s' = 1" by (simp add: drowsiness_logic_def initial_state_def)
  have ap: "drowsiness_run (3/2) ([(True, 0), (True, 2)] @ [(True, 3), (True, 4)])
              initial_state = drowsiness_run (3/2) (map (Pair True) [3, 4]) ?s'"
    by (simp only: drowsiness_run_append list.map)
  from total_alerts_counts_episodes [of ?fs "3/2" initial_state "3/2" "[]" ?s' "[]" "[3, 4]"]
    so z a t0
  have "total_alerts (drowsiness_run (3/2) ?fs initial_state) = int (alerting_episodes (3/2) ?fs)"
    and "total_alerts (drowsiness_run (3/2) (map (Pair True) [3, 4]) ?s') = total_alerts ?s'"
    using al by simp_all
  with so z a r e al t1 ap show ?thesis by simp
qed

subsection \<open>The drowsy flag of a frame\<close>

text \<open>
  Claim C3. When the face loop of a frame finishes, \<open>drowsy\<close> is true if and only if
  every detected face has no detected eye regions (after both passes), and the loop
  finishes whenever no cascade call raises. A frame with no faces is drowsy. A frame with
  two faces, one with eyes and one without, is not drowsy, in either order.
\<close>

theorem drowsy_iff_no_face_has_eyes:
  "(classify_frame cascade sens faces = Inr (drowsy, n) \<longrightarrow>
      (drowsy \<longleftrightarrow> (\<forall>roi\<in>set faces. fst (detect_eyes cascade sens roi) = Inr [])))
   \<and> ((\<forall>roi\<in>set faces. \<exists>eyes. fst (detect_eyes cascade sens roi) = Inr eyes) \<longrightarrow>
        (\<exists>d k. classify_frame cascade sens faces = Inr (d, k)))
   \<and> classify_frame cascade sens [] = Inr (True, 0)
   \<and> (fst (detect_eyes cascade sens roi1) = Inr eyes1 \<and> eyes1 \<noteq> []
        \<and> fst (detect_eyes cascade sens roi2) = Inr [] \<longrightarrow>
        classify_frame cascade sens [roi1, roi2] = Inr (False, 0)
        \<and> classify_frame cascade sens [roi2, roi1] = Inr (False, length eyes1))"
  using face_loop_result [of cascade sens faces True 0 drowsy n]
    face_loop_total [of faces cascade sens True 0]
  by (auto simp: classify_frame_def)


theorem drowsy_iff_no_face_has_eyes_witness:
  "classify_frame demo_cascade 2 [0, 0] = Inr (True, 0)
   \<and> fst (detect_eyes demo_cascade 2 2) = Inr [(1, 2, 30, 30), (40, 2, 30, 30)]
   \<and> fst (detect_eyes demo_cascade 2 0) = Inr []
   \<and> classify_frame demo_cascade 2 [2, 0] = Inr (False, 0)
   \<and> classify_frame demo_cascade 2 [0, 2] = Inr (False, 2)"
proof -
  have c: "classify_frame demo_cascade 2 [0, 0] = Inr (True, 0)"
    by (simp add: classify_frame_def demo_detect)
  have d2: "fst (detect_eyes demo_cascade 2 2) = Inr [(1, 2, 30, 30), (40, 2, 30, 30)]"
    and d0: "fst (detect_eyes demo_cascade 2 0) = Inr []"
    by (simp_all add: demo_detect)
  from drowsy_iff_no_face_has_eyes [of demo_cascade 2 "[0, 0]" True 0 2
      "[(1, 2, 30, 30), (40, 2, 30, 30)]" 0] c d2 d0
  show ?thesis by simp
qed

subsection \<open>The two passes of the eye cascade\<close>

text \<open>
  Claim C4, as stated, fails in one point: the lenient pass does not use a coarser scale
  step. Its \<open>scaleFactor\<close> is 1.05 against 1.1 in the strict pass, so the statement that
  the lenient factor is the greater one is false at the default sensitivity 2.
\<close>

theorem lenient_scale_step_not_coarser:
  "\<not> scaleFactor (strict_pass 2) < scaleFactor (lenient_pass 2)"
  by (simp add: strict_pass_def lenient_pass_def)


text \<open>
  Claim C4, amended. For every face region the cascade is called a second time exactly
  when the strict pass returns no eye regions, and the eyes returned are those of the
  strict pass if it found any (or raised), and otherwise whatever the lenient pass
  returns. The lenient pass has a smaller \<open>scaleFactor\<close> (a finer scale step), a
  neighbour threshold \<open>max 1 (sensitivity - 1)\<close>, a smaller minimum size, and no maximum
  size, where the strict pass has (80, 80). A frame with a face on which the strict pass
  is empty and the lenient pass is not is classified as not drowsy.
\<close>

theorem two_pass_eye_detection:
  "snd (detect_eyes cascade sens roi) =
     (if cascade (strict_pass sens) roi = Inr [] then [strict_pass sens, lenient_pass sens]
      else [strict_pass sens])
   \<and> fst (detect_eyes cascade sens roi) =
     (if cascade (strict_pass sens) roi = Inr [] then cascade (lenient_pass sens) roi
      else cascade (strict_pass sens) roi)
   \<and> scaleFactor (lenient_pass sens) < scaleFactor (strict_pass sens)
   \<and> minNeighbors (strict_pass sens) = sens
   \<and> minNeighbors (lenient_pass sens) = max 1 (sens - 1)
   \<and> fst (minSize (lenient_pass sens)) < fst (minSize (strict_pass sens))
   \<and> snd (minSize (lenient_pass sens)) < snd (minSize (strict_pass sens))
   \<and> maxSize (strict_pass sens) = Some (80, 80)
   \<and> maxSize (lenient_pass sens) = None
   \<and> (cascade (strict_pass sens) roi = Inr [] \<and> cascade (lenient_pass sens) roi = Inr eyes
        \<and> eyes \<noteq> [] \<and> roi \<in> set faces
        \<and> classify_frame cascade sens faces = Inr (drowsy, n) \<longrightarrow> \<not> drowsy)"
proof -
  have calls: "snd (detect_eyes cascade sens roi) =
     (if cascade (strict_pass sens) roi = Inr [] then [strict_pass sens, lenient_pass sens]
      else [strict_pass sens])"
    by (simp add: detect_eyes_def split: sum.splits)
  have res: "fst (detect_eyes cascade sens roi) =
     (if cascade (strict_pass sens) roi = Inr [] then cascade (lenient_pass sens) roi
      else cascade (strict_pass sens) roi)"
    by (simp add: detect_eyes_def split: sum.splits)
  have params: "scaleFactor (lenient_pass sens) < scaleFactor (strict_pass sens)
   \<and> minNeighbors (strict_pass sens) = sens
   \<and> minNeighbors (lenient_pass sens) = max 1 (sens - 1)
   \<and> fst (minSize (lenient_pass sens)) < fst (minSize (strict_pass sens))
   \<and> snd (minSize (lenient_pass sens)) < snd (minSize (strict_pass sens))
   \<and> maxSize (strict_pass sens) = Some (80, 80)
   \<and> maxSize (lenient_pass sens) = None"
    by (simp add: strict_pass_def lenient_pass_def)
  have "\<not> drowsy"
    if "cascade (strict_pass sens) roi = Inr []" "cascade (lenient_pass sens) roi = Inr eyes"
      "eyes \<noteq> []" "roi \<in> set faces" "classify_frame cascade sens faces = Inr (drowsy, n)"
  proof -
    have "fst (detect_eyes cascade sens roi) = Inr eyes" using res that(1,2) by simp
    with that(3,4) face_loop_result [OF that(5) [unfolded classify_frame_def]]
    show ?thesis by auto
  qed
  with calls res params show ?thesis by blast
qed


theorem two_pass_eye_detection_witness:
  "demo_cascade (strict_pass 2) 1 = Inr [] \<and> demo_cascade (lenient_pass 2) 1 = Inr [(3, 4, 20, 20)]
   \<and> (1::int) \<in> set [0, 1]
   \<and> classify_frame demo_cascade 2 [0, 1] = Inr (False, 1)
   \<and> snd (detect_eyes demo_cascade 2 1) = [strict_pass 2, lenient_pass 2]
   \<and> fst (detect_eyes demo_cascade 2 1) = Inr [(3, 4, 20, 20)]
   \<and> scaleFactor (lenient_pass 2) = 21 / 20 \<and> scaleFactor (strict_pass 2) = 11 / 10"
proof -
  have s1: "demo_cascade (strict_pass 2) 1 = Inr []"
    and l1: "demo_cascade (lenient_pass 2) 1 = Inr [(3, 4, 20, 20)]"
    by (simp_all add: demo_cascade_def strict_pass_def lenient_pass_def)
  have c: "classify_frame demo_cascade 2 [0, 1] = Inr (False, 1)"
    by (simp add: classify_frame_def demo_detect)
  have m: "(1::int) \<in> set [0, 1]" by simp
  have sc: "scaleFactor (lenient_pass 2) = 21 / 20 \<and> scaleFactor (strict_pass 2) = 11 / 10"
    by (simp add: strict_pass_def lenient_pass_def)
  note t = two_pass_eye_detection [of demo_cascade 2 1 "[(3, 4, 20, 20)]" "[0, 1]" False 1]
  from t have "snd (detect_eyes demo_cascade 2 1) =
     (if demo_cascade (strict_pass 2) 1 = Inr [] then [strict_pass 2, lenient_pass 2]
      else [strict_pass 2])"
    by (rule conjunct1)
  then have calls: "snd (detect_eyes demo_cascade 2 1) = [strict_pass 2, lenient_pass 2]"
    by (simp only: s1 simp_thms if_True)
  from t have "fst (detect_eyes demo_cascade 2 1) =
     (if demo_cascade (strict_pass 2) 1 = Inr [] then demo_cascade (lenient_pass 2) 1
      else demo_cascade (strict_pass 2) 1)"
    by (rule conjunct1 [OF conjunct2])
  then have res: "fst (detect_eyes demo_cascade 2 1) = Inr [(3, 4, 20, 20)]"
    by (simp only: s1 l1 simp_thms if_True)
  from s1 l1 m c calls res sc show ?thesis by blast
qed

subsection \<open>What the alert edge drives\<close>

text \<open>
  Claim C5, as stated, fails for the alarm sound: the audio element is written on every
  frame on which \<open>play_alarm\<close> is set, and the flag stays set while the eyes stay closed.
  With sound enabled and threshold 1.5, closed frames at 0, 2 and 3 seconds give one
  alert, fired on the second frame, and the audio element on the second and on the third.
\<close>

theorem alarm_sound_repeats_while_alerting:
  "map audio_emitted (frames_shown (detection_session demo_cascade demo_settings True
      [Frame (Inr []) 0, Frame (Inr []) 2, Frame (Inr []) 3]
      (initial_state\<lparr>detection_running := True\<rparr>))) = [False, True, True]
   \<and> map alert_fired (frames_shown (detection_session demo_cascade demo_settings True
      [Frame (Inr []) 0, Frame (Inr []) 2, Frame (Inr []) 3]
      (initial_state\<lparr>detection_running := True\<rparr>))) = [False, True, False]"
  by (simp add: detection_session_def video_capture_def max_frames_def process_frame_def
      classify_frame_def drowsiness_logic_def demo_settings_def initial_state_def)


text \<open>
  Claim C5, amended. On a frame that is processed from a state in which \<open>play_alarm\<close>
  equals \<open>alarm_on\<close> (as in the initial state, and again after the frame): the alert
  fires exactly when \<open>alarm_on\<close> goes from false to true, which happens only with
  \<open>closed_start\<close> set and the threshold exceeded and ends in ALERTING; the counter goes
  up by one exactly on that frame; the Firebase push is made exactly on that frame, when
  Firebase is enabled; from a state with the alarm on, no alert fires, nothing is pushed
  and the counter stays. Over a sequence of frames from AWAKE, with clock readings that
  do not decrease and a threshold that is not negative, the number of frames on which
  the alert fires is the number of episodes whose elapsed time exceeds the threshold.
  The audio element is written on every frame after which the alarm is on, when sound is
  enabled.
\<close>

theorem alert_edge_one_shot:
  assumes "process_frame cascade cfg faces now s = Inr (s', out)"
    and "play_alarm s = alarm_on s"
  shows "(alert_fired out \<longleftrightarrow> \<not> alarm_on s \<and> alarm_on s')
       \<and> (alert_fired out \<longrightarrow>
            (\<exists>c. closed_start s = Some c \<and> sensitivity cfg < now - c) \<and> alerting s')
       \<and> total_alerts s' = total_alerts s + (if alert_fired out then 1 else 0)
       \<and> (firebase_push out \<longleftrightarrow> alert_fired out \<and> firebase_enabled cfg)
       \<and> (alarm_on s \<longrightarrow>
            \<not> alert_fired out \<and> \<not> firebase_push out \<and> total_alerts s' = total_alerts s)
       \<and> play_alarm s' = alarm_on s'
       \<and> (audio_emitted out \<longleftrightarrow> alarm_on s' \<and> enable_sound cfg)
       \<and> (sorted (map snd fs) \<and> 0 \<le> thr \<and> awake s0 \<longrightarrow>
            length (filter id (alert_edges thr fs s0)) = alerting_episodes thr fs)"
proof -
  from assms(1) obtain drowsy alert fired where
    l: "drowsiness_logic (sensitivity cfg) drowsy now s = (s', alert, fired)"
    and o: "alert_fired out = fired" "firebase_push out = (fired \<and> firebase_enabled cfg)"
      "audio_emitted out = (play_alarm s' \<and> enable_sound cfg)"
    by (auto simp: process_frame_def split: sum.splits prod.splits)
  from l assms(2) have
    "(fired \<longleftrightarrow> \<not> alarm_on s \<and> alarm_on s')
     \<and> (fired \<longrightarrow> (\<exists>c. closed_start s = Some c \<and> sensitivity cfg < now - c) \<and> alerting s')
     \<and> total_alerts s' = total_alerts s + (if fired then 1 else 0)
     \<and> play_alarm s' = alarm_on s'"
    by (auto simp: drowsiness_logic_def alerting_def split: if_splits option.splits)
  with o edges_match_episodes [of fs thr s0] show ?thesis by simp
qed

theorem alert_edge_one_shot_witness:
  "process_frame demo_cascade demo_settings [] 2 (initial_state\<lparr>closed_start := Some 0\<rparr>) =
     Inr (initial_state\<lparr>closed_start := Some 0, alarm_on := True, total_alerts := 1,
            play_alarm := True\<rparr>,
          \<lparr>status_alert = True, alert_fired = True, firebase_push = True,
           audio_emitted = True, alerts_metric = 1, eyes_metric = 0\<rparr>)
   \<and> play_alarm (initial_state\<lparr>closed_start := Some 0\<rparr>) =
       alarm_on (initial_state\<lparr>closed_start := Some 0\<rparr>)
   \<and> alerting (initial_state\<lparr>closed_start := Some 0, alarm_on := True, total_alerts := 1,
            play_alarm := True\<rparr>)
   \<and> process_frame demo_cascade demo_settings [] 3
     (initial_state\<lparr>closed_start := Some 0, alarm_on := True, total_alerts := 1,
        play_alarm := True\<rparr>) =
     Inr (initial_state\<lparr>closed_start := Some 0, alarm_on := True, total_alerts := 1,
            play_alarm := True\<rparr>,
          \<lparr>status_alert = True, alert_fired = False, firebase_push = False,
           audio_emitted = True, alerts_metric = 1, eyes_metric = 0\<rparr>)
   \<and> alarm_on (initial_state\<lparr>closed_start := Some 0, alarm_on := True, total_alerts := 1,
            play_alarm := True\<rparr>)
   \<and> sorted (map snd [(True, 0), (True, 2), (True, 3), (False, 4), (True, 5), (True, 6 :: rat)])
   \<and> (0::rat) \<le> 3/2 \<and> awake initial_state
   \<and> alert_edges (3/2) [(True, 0), (True, 2), (True, 3), (False, 4), (True, 5), (True, 6)]
        initial_state = [False, True, False, False, False, False]
   \<and> alerting_episodes (3/2)
        [(True, 0), (True, 2), (True, 3), (False, 4), (True, 5), (True, 6)] = 1"
proof -
  let ?fs = "[(True, 0), (True, 2), (True, 3), (False, 4), (True, 5), (True, 6 :: rat)]"
  have so: "sorted (map snd ?fs)" by simp
  have z: "(0::rat) \<le> 3/2" by simp
  have aw: "awake initial_state" by (simp add: awake_def initial_state_def)
  have ed: "alert_edges (3/2) ?fs initial_state = [False, True, False, False, False, False]"
    by (simp add: drowsiness_logic_def initial_state_def)
  let ?s1 = "initial_state\<lparr>closed_start := Some 0\<rparr>"
  let ?s2 = "initial_state\<lparr>closed_start := Some 0, alarm_on := True, total_alerts := 1,
            play_alarm := True\<rparr>"
  let ?o1 = "\<lparr>status_alert = True, alert_fired = True, firebase_push = True,
           audio_emitted = True, alerts_metric = 1, eyes_metric = 0\<rparr>"
  have p1: "play_alarm ?s1 = alarm_on ?s1" by (simp add: initial_state_def)
  have f: "alert_fired ?o1" by simp
  have a2: "alarm_on ?s2" by simp
  note t = alert_edge_one_shot [OF demo_frames(1) p1, of ?fs "3/2" initial_state]
  from t have "alert_fired ?o1 \<longrightarrow>
          (\<exists>c. closed_start ?s1 = Some c \<and> sensitivity demo_settings < 2 - c) \<and> alerting ?s2"
    by (rule conjunct1 [OF conjunct2])
  with f have al: "alerting ?s2" by blast
  from t so z aw have "length (filter id (alert_edges (3/2) ?fs initial_state)) =
      alerting_episodes (3/2) ?fs"
    by blast
  with ed have ep: "alerting_episodes (3/2) ?fs = 1" by simp
  from demo_frames p1 al a2 so z aw ed ep show ?thesis by blast
qed

subsection \<open>Releasing the camera\<close>






subsection \<open>The eyes-detected metric\<close>

text \<open>
  Claim C10. For a frame with at least one face, the eyes-detected metric is the number
  of eye regions found for the last face of the list, not a total. With two faces, the
  first with eyes and the second without, the metric is 0 although the frame is
  classified as not drowsy and the timer is reset.
\<close>

theorem eyes_metric_is_last_face:
  "(process_frame cascade cfg (faces @ [roi]) now s = Inr (s', out)
      \<and> fst (detect_eyes cascade (eye_detection_sensitivity cfg) roi) = Inr eyes \<longrightarrow>
        eyes_metric out = length eyes)
   \<and> (process_frame cascade cfg [roi1, roi2] now s = Inr (s', out)
      \<and> fst (detect_eyes cascade (eye_detection_sensitivity cfg) roi1) = Inr eyes1
      \<and> eyes1 \<noteq> []
      \<and> fst (detect_eyes cascade (eye_detection_sensitivity cfg) roi2) = Inr [] \<longrightarrow>
        eyes_metric out = 0
        \<and> classify_frame cascade (eye_detection_sensitivity cfg) [roi1, roi2] = Inr (False, 0)
        \<and> s' = fst (drowsiness_logic (sensitivity cfg) False now s))"
proof -
  have last: "eyes_metric out = length eyes"
    if "process_frame cascade cfg (faces @ [roi]) now s = Inr (s', out)"
      and "fst (detect_eyes cascade (eye_detection_sensitivity cfg) roi) = Inr eyes"
  proof -
    from that(1) obtain d n where
      c: "classify_frame cascade (eye_detection_sensitivity cfg) (faces @ [roi]) = Inr (d, n)"
      and o: "eyes_metric out = n"
      by (auto simp: process_frame_def split: sum.splits prod.splits)
    from face_loop_last [OF c [unfolded classify_frame_def] that(2)] o show ?thesis by simp
  qed
  have two: "eyes_metric out = 0
        \<and> classify_frame cascade (eye_detection_sensitivity cfg) [roi1, roi2] = Inr (False, 0)
        \<and> s' = fst (drowsiness_logic (sensitivity cfg) False now s)"
    if "process_frame cascade cfg [roi1, roi2] now s = Inr (s', out)"
      and "fst (detect_eyes cascade (eye_detection_sensitivity cfg) roi1) = Inr eyes1"
      and "eyes1 \<noteq> []"
      and "fst (detect_eyes cascade (eye_detection_sensitivity cfg) roi2) = Inr []"
  proof -
    have c: "classify_frame cascade (eye_detection_sensitivity cfg) [roi1, roi2] = Inr (False, 0)"
      using that(2-4) by (simp add: classify_frame_def)
    with that(1) show ?thesis
      by (auto simp: process_frame_def split: prod.splits)
  qed
  from last two show ?thesis by blast
qed

theorem eyes_metric_is_last_face_witness:
  "fst (detect_eyes demo_cascade (eye_detection_sensitivity demo_settings) 2) =
     Inr [(1, 2, 30, 30), (40, 2, 30, 30)]
   \<and> fst (detect_eyes demo_cascade (eye_detection_sensitivity demo_settings) 0) = Inr []
   \<and> process_frame demo_cascade demo_settings ([2] @ [0]) 7 initial_state =
       Inr (initial_state,
         \<lparr>status_alert = False, alert_fired = False, firebase_push = False,
          audio_emitted = False, alerts_metric = 0, eyes_metric = 0\<rparr>)
   \<and> eyes_metric \<lparr>status_alert = False, alert_fired = False, firebase_push = False,
          audio_emitted = False, alerts_metric = 0, eyes_metric = 0\<rparr> = length ([] :: region list)
   \<and> classify_frame demo_cascade (eye_detection_sensitivity demo_settings) [2, 0] =
       Inr (False, 0)"
proof -
  let ?out = "\<lparr>status_alert = False, alert_fired = False, firebase_push = False,
          audio_emitted = False, alerts_metric = 0, eyes_metric = 0\<rparr>"
  have e: "eye_detection_sensitivity demo_settings = 2" by (simp add: demo_settings_def)
  have d2: "fst (detect_eyes demo_cascade (eye_detection_sensitivity demo_settings) 2) =
      Inr [(1, 2, 30, 30), (40, 2, 30, 30)]"
    and d0: "fst (detect_eyes demo_cascade (eye_detection_sensitivity demo_settings) 0) = Inr []"
    by (simp_all add: e demo_detect)
  have p: "process_frame demo_cascade demo_settings ([2] @ [0]) 7 initial_state =
      Inr (initial_state, ?out)"
    by (simp add: process_frame_def classify_frame_def e demo_detect drowsiness_logic_def
        initial_state_def)
  then have p': "process_frame demo_cascade demo_settings [2, 0] 7 initial_state =
      Inr (initial_state, ?out)"
    by simp
  from eyes_metric_is_last_face [of demo_cascade demo_settings "[2]" 0 7 initial_state
      initial_state ?out "[]" 2 0 "[(1, 2, 30, 30), (40, 2, 30, 30)]"] p p' d2 d0
  have "eyes_metric ?out = length ([] :: region list)"
    and "classify_frame demo_cascade (eye_detection_sensitivity demo_settings) [2, 0] =
       Inr (False, 0)"
    by simp_all
  with p d2 d0 show ?thesis by simp
qed


end
